theory Spec2Isabelle
  imports Main
begin

section \<open>Text, templates and field expressions\<close>

text \<open>
  The routing engine of \<^verbatim>\<open>falcon/routing/compiled.py\<close>. Python strings are modelled as
  \<^typ>\<open>string\<close>; a character stands for a code point below 256. The \<^verbatim>\<open>re\<close> module, the
  converter classes of \<^verbatim>\<open>falcon.routing.converters\<close> and the responder helpers are
  not part of the file: they enter the model through the environment record below.
\<close>

datatype error =
  UnacceptableRouteError | TypeError | ReError | KeyError | AssertionError | IndexError
  | NameError | AttributeError | ConverterError

datatype pyval = PNone | PStr string | PList "string list" | PInt int | PObj nat

type_synonym converter = "pyval \<Rightarrow> pyval"

text \<open>
  Modelled from the spec: a converter class of \<^verbatim>\<open>falcon.routing.converters\<close>. The registry
  maps a name to a constructor taking the optional argument string (\<open>None\<close>: the constructor
  raises), and the class advertises whether it consumes multiple segments
  (\<^verbatim>\<open>converters._consumes_multiple_segments\<close> reads that attribute from the class or from any
  of its instances).
\<close>

record converter_class =
  CONSUME_MULTIPLE_SEGMENTS :: bool
  instantiate :: "string option \<Rightarrow> converter option"

record responder =
  rid :: nat
  iscoroutinefunction :: bool
  is_python_func :: bool

type_synonym method_map = "(string \<times> responder) list"

type_synonym resource = nat

type_synonym groupdict = "string \<rightharpoonup> string"

text \<open>
  The environment: the converter registry \<^verbatim>\<open>self._converter_map\<close>, the regular expression
  library (\<^verbatim>\<open>re.compile\<close> of a pattern text gives \<open>None\<close> when it raises, otherwise the
  function from a subject string to the named groups of \<^verbatim>\<open>pattern.match\<close>), and the two
  helpers of \<^verbatim>\<open>falcon.util.sync\<close>.
\<close>

record env =
  converter_map :: "string \<rightharpoonup> converter_class"
  re_compile :: "string \<Rightarrow> (string \<Rightarrow> groupdict option) option"
  should_wrap_non_coroutines :: bool
  wrap_sync_to_async :: "responder \<Rightarrow> responder"

definition is_space :: "char \<Rightarrow> bool" where
  "is_space c =
     (let n = (of_char c :: nat)
      in (9 \<le> n \<and> n \<le> 13) \<or> (28 \<le> n \<and> n \<le> 32) \<or> n = 133 \<or> n = 160)"

definition lstrip_slash :: "string \<Rightarrow> string" where
  "lstrip_slash s = dropWhile (\<lambda>c. c = CHR ''/'') s"

fun split_slash :: "string \<Rightarrow> string list" where
  "split_slash [] = [[]]"
| "split_slash (c # cs) =
     (if c = CHR ''/'' then [] # split_slash cs
      else (case split_slash cs of [] \<Rightarrow> [[c]] | w # ws \<Rightarrow> (c # w) # ws))"

subsection \<open>The field pattern\<close>

text \<open>
  One match of \<^verbatim>\<open>_FIELD_PATTERN\<close>, with its named groups. The group \<^verbatim>\<open>cname_sep\<close> is the
  colon followed by \<^verbatim>\<open>cname\<close>, so it is derived.
\<close>

record field_match =
  fname :: string
  cname :: "string option"
  argstr :: "string option"

definition cname_sep :: "field_match \<Rightarrow> string option" where
  "cname_sep f = map_option (\<lambda>c. CHR '':'' # c) (cname f)"

text \<open>
  \<^verbatim>\<open>_FIELD_PATTERN\<close> tried at the start of a string: the groups and the text after the
  match. Every repetition is a negated character class followed by a character outside the
  class, so the only match takes each run to its end; the argument string must stop at a
  closing parenthesis that stands right before the brace.
\<close>

definition match_field :: "string \<Rightarrow> (field_match \<times> string) option" where
  "match_field s =
     (case s of
        [] \<Rightarrow> None
      | c # t \<Rightarrow>
          if c \<noteq> CHR ''{'' then None
          else
            (let fn = takeWhile (\<lambda>x. x \<noteq> CHR ''}'' \<and> x \<noteq> CHR '':'') t;
                 r1 = dropWhile (\<lambda>x. x \<noteq> CHR ''}'' \<and> x \<noteq> CHR '':'') t
             in case r1 of
                  [] \<Rightarrow> None
                | d # r2 \<Rightarrow>
                    if d = CHR ''}''
                    then Some (\<lparr>fname = fn, cname = None, argstr = None\<rparr>, r2)
                    else
                      (let cn = takeWhile (\<lambda>x. x \<noteq> CHR ''}'' \<and> x \<noteq> CHR ''('') r2;
                           r3 = dropWhile (\<lambda>x. x \<noteq> CHR ''}'' \<and> x \<noteq> CHR ''('') r2
                       in case r3 of
                            [] \<Rightarrow> None
                          | e # r4 \<Rightarrow>
                              if e = CHR ''}''
                              then Some (\<lparr>fname = fn, cname = Some cn, argstr = None\<rparr>, r4)
                              else
                                (let run = takeWhile (\<lambda>x. x \<noteq> CHR ''}'') r4;
                                     r5 = dropWhile (\<lambda>x. x \<noteq> CHR ''}'') r4
                                 in case r5 of
                                      [] \<Rightarrow> None
                                    | _ # r6 \<Rightarrow>
                                        if run \<noteq> [] \<and> last run = CHR '')''
                                        then Some (\<lparr>fname = fn, cname = Some cn,
                                                    argstr = Some (butlast run)\<rparr>, r6)
                                        else None))))"

lemma drop_cons_shorter:
  "dropWhile P xs = y # ys \<Longrightarrow> length ys < length xs"
  using length_dropWhile_le [of P xs] by simp

lemma match_field_shorter:
  assumes "match_field s = Some (f, r)"
  shows "length r < length s"
proof (cases s)
  case Nil
  with assms show ?thesis by (simp add: match_field_def)
next
  case (Cons c t)
  let ?p1 = "\<lambda>x. x \<noteq> CHR ''}'' \<and> x \<noteq> CHR '':''"
  let ?p2 = "\<lambda>x. x \<noteq> CHR ''}'' \<and> x \<noteq> CHR ''(''"
  let ?p3 = "\<lambda>x. x \<noteq> CHR ''}''"
  from assms Cons obtain d r2 where r1: "dropWhile ?p1 t = d # r2"
    by (auto simp: match_field_def Let_def split: if_splits list.splits)
  have l2: "length r2 < length t" using drop_cons_shorter [OF r1] .
  show ?thesis
  proof (cases "d = CHR ''}''")
    case True
    with assms Cons r1 have "r = r2"
      by (auto simp: match_field_def Let_def split: if_splits)
    with l2 Cons show ?thesis by simp
  next
    case False
    with assms Cons r1 obtain e r4 where r3: "dropWhile ?p2 r2 = e # r4"
      by (auto simp: match_field_def Let_def split: if_splits list.splits)
    have l4: "length r4 < length r2" using drop_cons_shorter [OF r3] .
    show ?thesis
    proof (cases "e = CHR ''}''")
      case True
      with assms Cons r1 r3 False have "r = r4"
        by (auto simp: match_field_def Let_def split: if_splits)
      with l2 l4 Cons show ?thesis by simp
    next
      case e: False
      with assms Cons r1 r3 False obtain z r6 where r5: "dropWhile ?p3 r4 = z # r6" and "r = r6"
        by (auto simp: match_field_def Let_def split: if_splits list.splits)
      with drop_cons_shorter [OF r5] l2 l4 Cons show ?thesis by simp
    qed
  qed
qed

datatype part = Lit char | Fld field_match

text \<open>
  The scan of \<^verbatim>\<open>finditer\<close> and \<^verbatim>\<open>sub\<close>: the text as the sequence of its field matches and of
  the characters between them, left to right, matches not overlapping.
\<close>

function parts :: "string \<Rightarrow> part list" where
  "parts [] = []"
| "parts (c # cs) =
     (case match_field (c # cs) of
        Some (f, rest) \<Rightarrow> Fld f # parts rest
      | None \<Rightarrow> Lit c # parts cs)"
  by pat_completeness auto
termination
  by (relation "measure length") (auto dest: match_field_shorter)

definition finditer :: "string \<Rightarrow> field_match list" where
  "finditer s = concat (map (\<lambda>p. case p of Lit c \<Rightarrow> [] | Fld f \<Rightarrow> [f]) (parts s))"

definition field_sub :: "(field_match \<Rightarrow> string) \<Rightarrow> string \<Rightarrow> string" where
  "field_sub repl s = concat (map (\<lambda>p. case p of Lit c \<Rightarrow> [c] | Fld f \<Rightarrow> repl f) (parts s))"

subsection \<open>Identifiers and keywords\<close>

definition is_ident_start :: "char \<Rightarrow> bool" where
  "is_ident_start c =
     (let n = (of_char c :: nat)
      in (65 \<le> n \<and> n \<le> 90) \<or> (97 \<le> n \<and> n \<le> 122) \<or> n = 95)"

definition is_ident_char :: "char \<Rightarrow> bool" where
  "is_ident_char c = (is_ident_start c \<or> (48 \<le> (of_char c :: nat) \<and> (of_char c :: nat) \<le> 57))"

text \<open>
  \<^verbatim>\<open>_IDENTIFIER_PATTERN.match(name)\<close> for the pattern \<^verbatim>\<open>[A-Za-z_][A-Za-z0-9_]*$\<close>: Python's
  \<^verbatim>\<open>$\<close> matches at the end of the string and also just before a newline that ends it.
\<close>

definition identifier_match :: "string \<Rightarrow> bool" where
  "identifier_match s =
     (case s of
        [] \<Rightarrow> False
      | c # cs \<Rightarrow>
          is_ident_start c \<and>
          (let r = dropWhile is_ident_char cs in r = [] \<or> r = [CHR 0x0A]))"

text \<open>What the spec calls a valid identifier: the whole name is in \<^verbatim>\<open>[A-Za-z_][A-Za-z0-9_]*\<close>.\<close>

definition valid_identifier :: "string \<Rightarrow> bool" where
  "valid_identifier s =
     (case s of [] \<Rightarrow> False | c # cs \<Rightarrow> is_ident_start c \<and> list_all is_ident_char cs)"

definition kwlist :: "string list" where
  "kwlist =
     [''False'', ''None'', ''True'', ''and'', ''as'', ''assert'', ''async'', ''await'',
      ''break'', ''class'', ''continue'', ''def'', ''del'', ''elif'', ''else'', ''except'',
      ''finally'', ''for'', ''from'', ''global'', ''if'', ''import'', ''in'', ''is'',
      ''lambda'', ''nonlocal'', ''not'', ''or'', ''pass'', ''raise'', ''return'', ''try'',
      ''while'', ''with'', ''yield'']"

section \<open>Segment nodes\<close>

record segment_attrs =
  raw_segment :: string
  is_var :: bool
  is_complex :: bool
  num_fields :: nat
  var_name :: "string option"
  var_pattern :: "string option"
  var_converter_map :: "(string \<times> string \<times> string option) list"

datatype node =
  Node (attrs: segment_attrs) (method_map: "method_map option")
    (resource: "resource option") (uri_template: "string option") (children: "node list")

definition escape_segment :: "string \<Rightarrow> string" where
  "escape_segment s =
     concat (map (\<lambda>c. if c \<in> set ''.()[]?$*+^|'' then [CHR 0x5C, c] else [c]) s)"

definition pattern_text :: "string \<Rightarrow> string" where
  "pattern_text raw =
     ''^'' @ field_sub (\<lambda>f. ''(?P<'' @ fname f @ ''>.+)'') (escape_segment raw) @ ''$''"

text \<open>
  \<^verbatim>\<open>CompiledRouterNode.__init__\<close> with the default arguments. The first match spans the whole
  segment iff the pattern matches at the start and leaves nothing. The node keeps the
  text of its pattern; \<^verbatim>\<open>re.compile\<close> is asked whether it compiles.
\<close>

definition CompiledRouterNode :: "env \<Rightarrow> string \<Rightarrow> error + node" where
  "CompiledRouterNode E raw =
     (let ms = finditer raw;
          vcm = concat (map (\<lambda>f. case cname f of
                                     None \<Rightarrow> []
                                   | Some cn \<Rightarrow> if cn = [] then [] else [(fname f, cn, argstr f)]) ms)
      in if ms = []
         then Inr (Node \<lparr>raw_segment = raw, is_var = False, is_complex = False,
                         num_fields = 0, var_name = None, var_pattern = None,
                         var_converter_map = []\<rparr> None None None [])
         else
           (case match_field raw of
              Some (f, []) \<Rightarrow>
                Inr (Node \<lparr>raw_segment = raw, is_var = True, is_complex = False,
                           num_fields = length ms, var_name = Some (fname f),
                           var_pattern = None, var_converter_map = vcm\<rparr> None None None [])
            | _ \<Rightarrow>
                (case re_compile E (pattern_text raw) of
                   None \<Rightarrow> Inl ReError
                 | Some _ \<Rightarrow>
                     Inr (Node \<lparr>raw_segment = raw, is_var = True, is_complex = True,
                                num_fields = length ms, var_name = None,
                                var_pattern = Some (pattern_text raw),
                                var_converter_map = vcm\<rparr> None None None []))))"

definition matches :: "node \<Rightarrow> string \<Rightarrow> bool" where
  "matches n segment = (segment = raw_segment (attrs n))"

definition conflicts_with :: "env \<Rightarrow> node \<Rightarrow> string \<Rightarrow> error + bool" where
  "conflicts_with E n segment =
     (if matches n segment then Inl AssertionError
      else
        (case CompiledRouterNode E segment of
           Inl e \<Rightarrow> Inl e
         | Inr other \<Rightarrow>
             if is_var (attrs n)
             then
               (if is_complex (attrs n)
                then
                  (if is_complex (attrs other)
                   then Inr (field_sub (\<lambda>f. ''v'') (raw_segment (attrs n))
                             = field_sub (\<lambda>f. ''v'') segment)
                   else Inr False)
                else Inr (is_var (attrs other) \<and> \<not> is_complex (attrs other)))
             else Inr False))"

section \<open>Registration\<close>

subsection \<open>Template validation\<close>

text \<open>
  \<^verbatim>\<open>_validate_template_segment\<close>: the loop over the fields of one segment, with the set of
  names used so far threaded through. \<^verbatim>\<open>_instantiate_converter\<close> is the constructor of the
  registered class applied to the argument string.
\<close>

fun validate_fields :: "env \<Rightarrow> field_match list \<Rightarrow> string list \<Rightarrow> error + string list" where
  "validate_fields E [] used_names = Inr used_names"
| "validate_fields E (field # flds) used_names =
     (let name = fname field
      in if \<not> identifier_match name \<or> name \<in> set kwlist then Inl UnacceptableRouteError
         else if name \<in> set used_names then Inl UnacceptableRouteError
         else if cname_sep field = Some '':'' then Inl UnacceptableRouteError
         else
           (case cname field of
              None \<Rightarrow> validate_fields E flds (name # used_names)
            | Some cn \<Rightarrow>
                if cn = [] then validate_fields E flds (name # used_names)
                else
                  (case converter_map E cn of
                     None \<Rightarrow> Inl UnacceptableRouteError
                   | Some klass \<Rightarrow>
                       (case instantiate klass (argstr field) of
                          None \<Rightarrow> Inl UnacceptableRouteError
                        | Some _ \<Rightarrow> validate_fields E flds (name # used_names)))))"

definition validate_template_segment :: "env \<Rightarrow> string \<Rightarrow> string list \<Rightarrow> error + string list" where
  "validate_template_segment E segment used_names =
     validate_fields E (finditer segment) used_names"

fun validate_path :: "env \<Rightarrow> string list \<Rightarrow> string list \<Rightarrow> error + string list" where
  "validate_path E [] used_names = Inr used_names"
| "validate_path E (segment # path) used_names =
     (case validate_template_segment E segment used_names of
        Inl e \<Rightarrow> Inl e
      | Inr used \<Rightarrow> validate_path E path used)"

subsection \<open>Responder checks\<close>

fun require_coroutine_responders :: "env \<Rightarrow> method_map \<Rightarrow> error + method_map" where
  "require_coroutine_responders E [] = Inr []"
| "require_coroutine_responders E ((method, r) # mm) =
     (if \<not> iscoroutinefunction r \<and> is_python_func r
      then
        (if should_wrap_non_coroutines E
         then
           (case require_coroutine_responders E mm of
              Inl e \<Rightarrow> Inl e
            | Inr mm' \<Rightarrow> Inr ((method, wrap_sync_to_async E r) # mm'))
         else Inl TypeError)
      else
        (case require_coroutine_responders E mm of
           Inl e \<Rightarrow> Inl e
         | Inr mm' \<Rightarrow> Inr ((method, r) # mm')))"

definition require_non_coroutine_responders :: "method_map \<Rightarrow> error + method_map" where
  "require_non_coroutine_responders mm =
     (if list_ex (\<lambda>(method, r). iscoroutinefunction r) mm then Inl TypeError else Inr mm)"

subsection \<open>Tree insertion\<close>

text \<open>
  \<^verbatim>\<open>find_cmp_converter\<close>: the list comprehension looks every converter of the node up in
  the registry, and the first entry whose class consumes multiple segments is returned.
\<close>

fun cmp_converters ::
  "env \<Rightarrow> (string \<times> string \<times> string option) list \<Rightarrow> error + (string \<times> string) list" where
  "cmp_converters E [] = Inr []"
| "cmp_converters E ((field, conv, a) # vcm) =
     (case converter_map E conv of
        None \<Rightarrow> Inl KeyError
      | Some klass \<Rightarrow>
          (case cmp_converters E vcm of
             Inl e \<Rightarrow> Inl e
           | Inr v \<Rightarrow> Inr (if CONSUME_MULTIPLE_SEGMENTS klass then (field, conv) # v else v)))"

definition find_cmp_converter :: "env \<Rightarrow> node \<Rightarrow> error + (string \<times> string) option" where
  "find_cmp_converter E n =
     (case cmp_converters E (var_converter_map (attrs n)) of
        Inl e \<Rightarrow> Inl e
      | Inr [] \<Rightarrow> Inr None
      | Inr (v # _) \<Rightarrow> Inr (Some v))"

text \<open>What \<^verbatim>\<open>add_route\<close> binds to the terminal node: method map, resource, template.\<close>

type_synonym binding = "method_map \<times> resource \<times> string"

definition bind_node :: "binding \<Rightarrow> node \<Rightarrow> node" where
  "bind_node b n =
     (case b of (mm, res, tmpl) \<Rightarrow> Node (attrs n) (Some mm) (Some res) (Some tmpl) (children n))"

definition set_children :: "node \<Rightarrow> node list \<Rightarrow> node" where
  "set_children n ch = Node (attrs n) (method_map n) (resource n) (uri_template n) ch"

text \<open>
  The loop of \<^verbatim>\<open>insert\<close> over the siblings, up to the point where it leaves the loop: at
  the first sibling that matches the segment, at the first error, or at the end.
\<close>

datatype scan_result = Matched nat | Raised error | Unmatched

fun scan :: "env \<Rightarrow> node list \<Rightarrow> string \<Rightarrow> scan_result" where
  "scan E [] segment = Unmatched"
| "scan E (n # ns) segment =
     (if matches n segment then Matched 0
      else
        (case conflicts_with E n segment of
           Inl e \<Rightarrow> Raised e
         | Inr True \<Rightarrow> Raised UnacceptableRouteError
         | Inr False \<Rightarrow>
             (case scan E ns segment of
                Matched i \<Rightarrow> Matched (Suc i)
              | Raised e \<Rightarrow> Raised e
              | Unmatched \<Rightarrow> Unmatched)))"

text \<open>
  \<^verbatim>\<open>insert\<close>, on the segments from \<^verbatim>\<open>path_index\<close> on. The list of siblings is mutated in
  place by the source, so the model returns it together with the error raised, if any:
  what a caller that catches the exception finds in the tree.
\<close>

fun insert :: "env \<Rightarrow> binding \<Rightarrow> node list \<Rightarrow> string list \<Rightarrow> error option \<times> node list" where
  "insert E b nodes [] = (Some IndexError, nodes)"
| "insert E b nodes (segment # rest) =
     (case scan E nodes segment of
        Matched i \<Rightarrow>
          (let n = nodes ! i
           in if rest = [] then (None, nodes[i := bind_node b n])
              else
                (case find_cmp_converter E n of
                   Inl e \<Rightarrow> (Some e, nodes)
                 | Inr (Some cpc) \<Rightarrow> (Some UnacceptableRouteError, nodes)
                 | Inr None \<Rightarrow>
                     (case insert E b (children n) rest of
                        (e, ch) \<Rightarrow> (e, nodes[i := set_children n ch]))))
      | Raised e \<Rightarrow> (Some e, nodes)
      | Unmatched \<Rightarrow>
          (case CompiledRouterNode E segment of
             Inl e \<Rightarrow> (Some e, nodes)
           | Inr new_node \<Rightarrow>
               (case (if is_complex (attrs new_node) then find_cmp_converter E new_node
                      else Inr None) of
                  Inl e \<Rightarrow> (Some e, nodes)
                | Inr (Some cpc) \<Rightarrow> (Some UnacceptableRouteError, nodes)
                | Inr None \<Rightarrow>
                    if rest = [] then (None, nodes @ [bind_node b new_node])
                    else
                      (case find_cmp_converter E new_node of
                         Inl e \<Rightarrow> (Some e, nodes @ [new_node])
                       | Inr (Some cpc) \<Rightarrow> (Some UnacceptableRouteError, nodes)
                       | Inr None \<Rightarrow>
                           (case insert E b (children new_node) rest of
                              (e, ch) \<Rightarrow> (e, nodes @ [set_children new_node ch]))))))"

subsection \<open>The router\<close>

text \<open>
  The router state is the list of root nodes. The compiled matcher \<^verbatim>\<open>_find\<close> is not kept
  in the state: every successful \<^verbatim>\<open>add_route\<close> resets it, so that the next lookup runs the
  compilation of the current tree; \<open>finder_src\<close> below is the source text it compiles.

  \<^verbatim>\<open>add_route\<close> takes the method map that \<^verbatim>\<open>map_http_methods\<close> and
  \<^verbatim>\<open>set_default_responders\<close> built for the resource, and the \<^verbatim>\<open>_asgi\<close> flag. It returns the
  error raised, if any, and the roots as the call leaves them.
\<close>

definition add_route ::
  "env \<Rightarrow> node list \<Rightarrow> string \<Rightarrow> resource \<Rightarrow> method_map \<Rightarrow> bool \<Rightarrow> error option \<times> node list" where
  "add_route E roots template res mm0 asgi =
     (case (if asgi then require_coroutine_responders E mm0
            else require_non_coroutine_responders mm0) of
        Inl e \<Rightarrow> (Some e, roots)
      | Inr mm \<Rightarrow>
          if list_ex is_space (field_sub (\<lambda>f. ''{FIELD}'') template)
          then (Some UnacceptableRouteError, roots)
          else
            (let path = split_slash (lstrip_slash template)
             in case validate_path E path [] of
                  Inl e \<Rightarrow> (Some e, roots)
                | Inr _ \<Rightarrow> insert E (mm, res, template) roots path))"

section \<open>The matcher compiler\<close>

subsection \<open>Constructs\<close>

datatype comparison = GreaterThan | EqualTo

text \<open>The generated variables \<^verbatim>\<open>dict_match_N\<close> and \<^verbatim>\<open>dict_groups_N\<close>.\<close>

datatype dict_var = DictMatch nat | DictGroups nat

text \<open>
  The constructs of the coarse syntax tree, one constructor for each \<^verbatim>\<open>_Cx\<close> class. The
  variable \<^verbatim>\<open>field_value_N\<close> is named by its number.
\<close>

datatype cx =
    CxIfPathLength comparison nat "cx list"
  | CxIfPathSegmentLiteral nat string "cx list"
  | CxIfPathSegmentPattern nat nat string "cx list"
  | CxIfConverterField nat nat "cx list"
  | CxSetFragmentFromField string
  | CxSetFragmentFromPath nat
  | CxSetFragmentFromRemainingPaths nat
  | CxVariableFromPatternMatch nat
  | CxVariableFromPatternMatchPrefetched nat
  | CxPrefetchGroupsFromPatternMatch
  | CxReturnNone
  | CxReturnValue nat
  | CxSetParamFromPath string nat
  | CxSetParamFromValue string nat
  | CxSetParamsFromDict dict_var

text \<open>
  The source builds the tree by mutation: \<^verbatim>\<open>parent.append_child(c)\<close> adds a construct to the
  current parent, and \<^verbatim>\<open>parent = c\<close> moves into a construct just added. The model keeps,
  for the constructs opened below \<^verbatim>\<open>outer_parent\<close>, the children each one had when the next
  was opened, and the children of the current parent; \<open>plug\<close> closes them around what is
  appended to the current parent afterwards.
\<close>

datatype hole = HLiteral nat string | HPattern nat nat string | HConverter nat nat

fun fill :: "hole \<Rightarrow> cx list \<Rightarrow> cx" where
  "fill (HLiteral i s) body = CxIfPathSegmentLiteral i s body"
| "fill (HPattern i p t) body = CxIfPathSegmentPattern i p t body"
| "fill (HConverter u c) body = CxIfConverterField u c body"

type_synonym builder = "(cx list \<times> hole) list \<times> cx list"

definition append_child :: "cx \<Rightarrow> builder \<Rightarrow> builder" where
  "append_child c b = (fst b, snd b @ [c])"

definition enter :: "hole \<Rightarrow> builder \<Rightarrow> builder" where
  "enter h b = (fst b @ [(snd b, h)], [])"

fun plug_layers :: "(cx list \<times> hole) list \<Rightarrow> cx list \<Rightarrow> cx list" where
  "plug_layers [] body = body"
| "plug_layers ((pre, h) # layers) body = pre @ [fill h (plug_layers layers body)]"

definition plug :: "builder \<Rightarrow> cx list \<Rightarrow> cx list" where
  "plug b body = plug_layers (fst b) (snd b @ body)"

record tables =
  return_values :: "node list"
  patterns :: "string list"
  converters :: "converter list"

subsection \<open>Generation\<close>

text \<open>
  The loop of \<^verbatim>\<open>_generate_conversion_ast\<close>, and the function itself: the builder, the
  parameter stack and \<^verbatim>\<open>self._converters\<close> are threaded through.
\<close>

fun conversion_loop ::
  "env \<Rightarrow> (string \<times> string \<times> string option) list \<Rightarrow> builder \<Rightarrow> cx list \<Rightarrow> converter list
    \<Rightarrow> error + (builder \<times> cx list \<times> converter list)" where
  "conversion_loop E [] b params_stack cs = Inr (b, params_stack, cs)"
| "conversion_loop E ((field_name, converter_name, converter_argstr) # vcm) b params_stack cs =
     (case converter_map E converter_name of
        None \<Rightarrow> Inl KeyError
      | Some klass \<Rightarrow>
          if CONSUME_MULTIPLE_SEGMENTS klass then Inl AssertionError
          else
            (case instantiate klass converter_argstr of
               None \<Rightarrow> Inl ConverterError
             | Some converter_obj \<Rightarrow>
                 conversion_loop E vcm
                   (enter (HConverter (length params_stack + 1) (length cs))
                      (append_child (CxSetFragmentFromField field_name) b))
                   (params_stack @ [CxSetParamFromValue field_name (length params_stack + 1)])
                   (cs @ [converter_obj])))"

definition generate_conversion_ast ::
  "env \<Rightarrow> node \<Rightarrow> builder \<Rightarrow> cx list \<Rightarrow> converter list
    \<Rightarrow> error + (builder \<times> cx list \<times> converter list)" where
  "generate_conversion_ast E n b params_stack cs =
     (case conversion_loop E (var_converter_map (attrs n)) b params_stack cs of
        Inl e \<Rightarrow> Inl e
      | Inr (b', ps, cs') \<Rightarrow>
          if num_fields (attrs n) > length (var_converter_map (attrs n))
          then Inr (append_child (CxVariableFromPatternMatchPrefetched (length ps + 1)) b',
                    ps @ [CxSetParamsFromDict (DictGroups (length ps + 1))], cs')
          else Inr (b', ps, cs'))"

text \<open>The sort key of \<^verbatim>\<open>_generate_ast\<close>: static nodes 0, complex nodes 1, simple nodes 2.\<close>

definition sort_rank :: "node \<Rightarrow> nat" where
  "sort_rank n =
     (if is_var (attrs n) then 1 else 0)
     + (if is_var (attrs n) \<and> \<not> is_complex (attrs n) then 1 else 0)"

definition is_simple :: "node \<Rightarrow> bool" where
  "is_simple n = (is_var (attrs n) \<and> \<not> is_complex (attrs n))"

text \<open>
  The first part of the loop body of \<^verbatim>\<open>_generate_ast\<close>, up to the test of
  \<^verbatim>\<open>node.resource\<close>: the constructs opened for the node, the parameter stack of its branch,
  the tables, and \<^verbatim>\<open>consume_multiple_segments\<close>.
\<close>

definition open_node ::
  "env \<Rightarrow> node list \<Rightarrow> node \<Rightarrow> tables \<Rightarrow> cx list \<Rightarrow> nat
    \<Rightarrow> error + (builder \<times> cx list \<times> tables \<times> bool)" where
  "open_node E nodes n T params_stack level =
     (if is_var (attrs n)
      then
        (if is_complex (attrs n)
         then
           (case var_pattern (attrs n) of
              None \<Rightarrow> Inl AssertionError
            | Some text \<Rightarrow>
                (let pattern_idx = length (patterns T);
                     T1 = T\<lparr>patterns := patterns T @ [text]\<rparr>;
                     b = enter (HPattern level pattern_idx text) ([], [])
                 in if var_converter_map (attrs n) \<noteq> []
                    then
                      (case generate_conversion_ast E n
                              (append_child CxPrefetchGroupsFromPatternMatch b)
                              params_stack (converters T1) of
                         Inl e \<Rightarrow> Inl e
                       | Inr (b', ps, cs) \<Rightarrow> Inr (b', ps, T1\<lparr>converters := cs\<rparr>, False))
                    else
                      Inr (append_child (CxVariableFromPatternMatch (length params_stack + 1)) b,
                           params_stack @ [CxSetParamsFromDict (DictMatch (length params_stack + 1))],
                           T1, False)))
         else
           (case var_name (attrs n) of
              None \<Rightarrow> Inl AssertionError
            | Some field_name \<Rightarrow>
                (case (if var_converter_map (attrs n) \<noteq> []
                       then
                         (case var_converter_map (attrs n) of
                            [(f, converter_name, converter_argstr)] \<Rightarrow>
                              (case converter_map E converter_name of
                                 None \<Rightarrow> Inl KeyError
                               | Some klass \<Rightarrow>
                                   (case instantiate klass converter_argstr of
                                      None \<Rightarrow> Inl ConverterError
                                    | Some converter_obj \<Rightarrow>
                                        (let consume = CONSUME_MULTIPLE_SEGMENTS klass;
                                             b = append_child
                                                   (if consume
                                                    then CxSetFragmentFromRemainingPaths level
                                                    else CxSetFragmentFromPath level) ([], [])
                                         in Inr (enter (HConverter (length params_stack + 1)
                                                          (length (converters T))) b,
                                                 params_stack
                                                   @ [CxSetParamFromValue field_name
                                                        (length params_stack + 1)],
                                                 T\<lparr>converters := converters T @ [converter_obj]\<rparr>,
                                                 consume))))
                          | _ \<Rightarrow> Inl AssertionError)
                       else Inr (([], []), params_stack @ [CxSetParamFromPath field_name level],
                                 T, False)) of
                   Inl e \<Rightarrow> Inl e
                 | Inr r \<Rightarrow>
                     if length (filter is_simple nodes) = 1 then Inr r else Inl AssertionError)))
      else Inr (enter (HLiteral level (raw_segment (attrs n))) ([], []), params_stack, T, False))"

fun nsize :: "node \<Rightarrow> nat" where
  "nsize (Node a m r u ch) = Suc (sum_list (map nsize ch))"

lemma nsize_children: "nsize n = Suc (sum_list (map nsize (children n)))"
  by (cases n) simp

lemma sum_insort_key: "sum_list (map f (insort_key k x xs)) = f x + sum_list (map (f :: 'a \<Rightarrow> nat) xs)"
  by (induction xs) auto

lemma sum_sort_key: "sum_list (map f (sort_key k xs)) = sum_list (map (f :: 'a \<Rightarrow> nat) xs)"
  by (induction xs) (auto simp: sum_insort_key)

text \<open>
  \<^verbatim>\<open>_generate_ast\<close>: the constructs appended to \<^verbatim>\<open>parent\<close> and the tables afterwards.
  \<open>generate_nodes\<close> is the loop over the sorted nodes, each branch starting from the
  parameter stack of the call.
\<close>

function (sequential)
  generate_ast ::
    "env \<Rightarrow> node list \<Rightarrow> tables \<Rightarrow> cx list \<Rightarrow> nat \<Rightarrow> bool \<Rightarrow> error + (cx list \<times> tables)"
  and generate_nodes ::
    "env \<Rightarrow> node list \<Rightarrow> node list \<Rightarrow> tables \<Rightarrow> cx list \<Rightarrow> nat \<Rightarrow> bool
      \<Rightarrow> error + (cx list \<times> tables)"
where
  "generate_ast E nodes T params_stack level fast_return =
     (if nodes = [] then Inr ([], T)
      else
        (let sorted_nodes = sort_key sort_rank nodes;
             fast = (if fast_return \<and> length sorted_nodes > 1
                     then \<not> list_ex (\<lambda>n. is_var (attrs n)) sorted_nodes
                     else fast_return);
             found_simple = list_ex is_simple sorted_nodes
         in case generate_nodes E sorted_nodes sorted_nodes T params_stack level fast of
              Inl e \<Rightarrow> Inl e
            | Inr (items, T') \<Rightarrow>
                Inr ([CxIfPathLength GreaterThan level
                        (items @ (if \<not> found_simple \<and> fast then [CxReturnNone] else []))],
                     T')))"
| "generate_nodes E nodes [] T params_stack level fast_return = Inr ([], T)"
| "generate_nodes E nodes (n # rest) T params_stack level fast_return =
     (case open_node E nodes n T params_stack level of
        Inl e \<Rightarrow> Inl e
      | Inr (b, ps, T1, consume_multiple_segments) \<Rightarrow>
          (let resource_idx = length (return_values T1);
               T2 = (if resource n \<noteq> None
                     then T1\<lparr>return_values := return_values T1 @ [n]\<rparr> else T1)
           in if consume_multiple_segments \<and> children n \<noteq> [] then Inl AssertionError
              else
                (case generate_ast E (children n) T2 ps (level + 1) fast_return of
                   Inl e \<Rightarrow> Inl e
                 | Inr (child_items, T3) \<Rightarrow>
                     (let tail =
                            (if resource n = None
                             then (if fast_return then [CxReturnNone] else [])
                             else if consume_multiple_segments
                             then ps @ [CxReturnValue resource_idx]
                             else CxIfPathLength EqualTo (level + 1)
                                    (ps @ [CxReturnValue resource_idx])
                                  # (if fast_return then [CxReturnNone] else []))
                      in case generate_nodes E nodes rest T3 params_stack level fast_return of
                           Inl e \<Rightarrow> Inl e
                         | Inr (rest_items, T4) \<Rightarrow>
                             Inr (plug b (child_items @ tail) @ rest_items, T4)))))"
  by pat_completeness auto
termination
  by (relation "measure (\<lambda>x. case x of
          Inl (E, nodes, T, ps, level, fast) \<Rightarrow> 2 * sum_list (map nsize nodes) + 1
        | Inr (E, nodes, ns, T, ps, level, fast) \<Rightarrow> 2 * sum_list (map nsize ns))")
     (auto simp: sum_sort_key nsize_children)

definition compile :: "env \<Rightarrow> node list \<Rightarrow> error + (cx list \<times> tables)" where
  "compile E roots =
     generate_ast E roots \<lparr>return_values = [], patterns = [], converters = []\<rparr> [] 0 True"

section \<open>The generated source\<close>

text \<open>
  The \<^verbatim>\<open>src\<close> methods of the constructs and the text that \<^verbatim>\<open>_compile\<close> hands to Python.
  The literal of a segment, the name of a field and the text of a pattern are pasted into
  the source as they are.
\<close>

definition TAB_STR :: string where
  "TAB_STR = ''    ''"

definition tabs :: "nat \<Rightarrow> string" where
  "tabs indentation = concat (replicate indentation TAB_STR)"

definition newline :: string where
  "newline = [CHR 0x0A]"

definition quote :: string where
  "quote = [CHR 0x27]"

fun join :: "string \<Rightarrow> string list \<Rightarrow> string" where
  "join sep [] = []"
| "join sep [x] = x"
| "join sep (x # y # ys) = x @ sep @ join sep (y # ys)"

text \<open>The decimal digits of a number, as \<^verbatim>\<open>str.format\<close> writes it.\<close>

function show_nat :: "nat \<Rightarrow> string" where
  "show_nat n =
     (if n < 10 then [char_of (48 + n)]
      else show_nat (n div 10) @ [char_of (48 + n mod 10)])"
  by pat_completeness auto
termination
  by (relation "measure id") auto

definition show_comparison :: "comparison \<Rightarrow> string" where
  "show_comparison c = (case c of GreaterThan \<Rightarrow> ''>'' | EqualTo \<Rightarrow> ''=='')"

definition show_dict_var :: "dict_var \<Rightarrow> string" where
  "show_dict_var d =
     (case d of
        DictMatch n \<Rightarrow> ''dict_match_'' @ show_nat n
      | DictGroups n \<Rightarrow> ''dict_groups_'' @ show_nat n)"

definition field_variable_name :: "nat \<Rightarrow> string" where
  "field_variable_name n = ''field_value_'' @ show_nat n"

fun src :: "nat \<Rightarrow> cx \<Rightarrow> string" where
  "src indentation (CxIfPathLength c n body) =
     tabs indentation @ ''if path_len '' @ show_comparison c @ '' '' @ show_nat n @ '':''
     @ newline @ join newline (map (src (indentation + 1)) body)"
| "src indentation (CxIfPathSegmentLiteral i literal body) =
     tabs indentation @ ''if path['' @ show_nat i @ ''] == '' @ quote @ literal @ quote @ '':''
     @ newline @ join newline (map (src (indentation + 1)) body)"
| "src indentation (CxIfPathSegmentPattern i pattern_idx text body) =
     join newline
       [tabs indentation @ ''match = patterns['' @ show_nat pattern_idx @ ''].match(path[''
          @ show_nat i @ ''])  # '' @ text,
        tabs indentation @ ''if match is not None:'',
        join newline (map (src (indentation + 1)) body)]"
| "src indentation (CxIfConverterField unique_idx converter_idx body) =
     join newline
       [tabs indentation @ field_variable_name unique_idx @ '' = converters[''
          @ show_nat converter_idx @ ''].convert(fragment)'',
        tabs indentation @ ''if '' @ field_variable_name unique_idx @ '' is not None:'',
        join newline (map (src (indentation + 1)) body)]"
| "src indentation (CxSetFragmentFromField field_name) =
     tabs indentation @ ''fragment = groups.pop('' @ quote @ field_name @ quote @ '')''"
| "src indentation (CxSetFragmentFromPath i) =
     tabs indentation @ ''fragment = path['' @ show_nat i @ '']''"
| "src indentation (CxSetFragmentFromRemainingPaths i) =
     tabs indentation @ ''fragment = path['' @ show_nat i @ '':]''"
| "src indentation (CxVariableFromPatternMatch unique_idx) =
     tabs indentation @ show_dict_var (DictMatch unique_idx) @ '' = match.groupdict()''"
| "src indentation (CxVariableFromPatternMatchPrefetched unique_idx) =
     tabs indentation @ show_dict_var (DictGroups unique_idx) @ '' = groups''"
| "src indentation CxPrefetchGroupsFromPatternMatch =
     tabs indentation @ ''groups = match.groupdict()''"
| "src indentation CxReturnNone = tabs indentation @ ''return None''"
| "src indentation (CxReturnValue value_idx) =
     tabs indentation @ ''return return_values['' @ show_nat value_idx @ '']''"
| "src indentation (CxSetParamFromPath param_name i) =
     tabs indentation @ ''params['' @ quote @ param_name @ quote @ ''] = path[''
     @ show_nat i @ '']''"
| "src indentation (CxSetParamFromValue param_name unique_idx) =
     tabs indentation @ ''params['' @ quote @ param_name @ quote @ ''] = ''
     @ field_variable_name unique_idx"
| "src indentation (CxSetParamsFromDict d) =
     tabs indentation @ ''params.update('' @ show_dict_var d @ '')''"

text \<open>
  \<^verbatim>\<open>_finder_src\<close> as \<^verbatim>\<open>_compile\<close> assembles it: the header, the constructs of the root parent
  at one level of indentation, and the final \<^verbatim>\<open>return None\<close>.
\<close>

definition finder_src :: "env \<Rightarrow> node list \<Rightarrow> error + string" where
  "finder_src E roots =
     (case compile E roots of
        Inl e \<Rightarrow> Inl e
      | Inr (ast, T) \<Rightarrow>
          Inr (join newline
                 [''def find(path, return_values, patterns, converters, params):'',
                  TAB_STR @ ''path_len = len(path)'',
                  join newline (map (src 1) ast),
                  TAB_STR @ ''return None'']))"

section \<open>A regular expression engine for the generated patterns\<close>

text \<open>
  The theorems below hold for every environment. To run the model on concrete templates,
  this is \<^verbatim>\<open>re.compile\<close> and \<^verbatim>\<open>match\<close> on the patterns that \<open>pattern_text\<close> produces from
  text without a backslash: \<^verbatim>\<open>^\<close>, then escaped characters, plain characters and named
  groups over \<^verbatim>\<open>.+\<close>, then \<^verbatim>\<open>$\<close>. A group name must be an identifier and may not be
  repeated; the dot does not match a newline; \<^verbatim>\<open>$\<close> matches at the end and before a final
  newline; the repetitions are greedy. Other pattern texts are rejected.
\<close>

datatype re_item = RChar char | RGroup string

lemma drop_group_shorter:
  "length (dropWhile P (drop 3 cs)) - 4 < Suc (length cs)"
  using length_dropWhile_le [of P "drop 3 cs"] by simp

function parse_items :: "string \<Rightarrow> re_item list option" where
  "parse_items [] = None"
| "parse_items (c # cs) =
     (if c = CHR ''$'' \<and> cs = [] then Some []
      else if c = CHR 0x5C then
        (case cs of
           [] \<Rightarrow> None
         | d # ds \<Rightarrow>
             if d \<in> set ''.()[]?$*+^|''
             then map_option (\<lambda>is. RChar d # is) (parse_items ds)
             else None)
      else if c = CHR ''('' then
        (if take 3 cs = ''?P<''
         then
           (let name = takeWhile (\<lambda>x. x \<noteq> CHR ''>'') (drop 3 cs);
                r = dropWhile (\<lambda>x. x \<noteq> CHR ''>'') (drop 3 cs)
            in if valid_identifier name \<and> take 4 r = ''>.+)''
               then map_option (\<lambda>is. RGroup name # is) (parse_items (drop 4 r))
               else None)
         else None)
      else if c \<in> set ''.)[]?$*+^|'' then None
      else map_option (\<lambda>is. RChar c # is) (parse_items cs))"
  by pat_completeness auto
termination
  by (relation "measure length") (auto simp: drop_group_shorter)

fun first_some :: "(nat \<Rightarrow> 'a option) \<Rightarrow> nat list \<Rightarrow> 'a option" where
  "first_some f [] = None"
| "first_some f (k # ks) = (case f k of Some r \<Rightarrow> Some r | None \<Rightarrow> first_some f ks)"

fun match_items :: "re_item list \<Rightarrow> string \<Rightarrow> (string \<times> string) list option" where
  "match_items [] s = (if s = [] \<or> s = [CHR 0x0A] then Some [] else None)"
| "match_items (RChar c # is) s =
     (case s of [] \<Rightarrow> None | x # xs \<Rightarrow> if x = c then match_items is xs else None)"
| "match_items (RGroup g # is) s =
     first_some
       (\<lambda>k. map_option (\<lambda>m. (g, take k s) # m) (match_items is (drop k s)))
       (rev [1..<Suc (length (takeWhile (\<lambda>x. x \<noteq> CHR 0x0A) s))])"

definition group_names :: "re_item list \<Rightarrow> string list" where
  "group_names is = concat (map (\<lambda>i. case i of RChar c \<Rightarrow> [] | RGroup g \<Rightarrow> [g]) is)"

definition simple_re :: "string \<Rightarrow> (string \<Rightarrow> groupdict option) option" where
  "simple_re text =
     (case text of
        [] \<Rightarrow> None
      | c # cs \<Rightarrow>
          if c \<noteq> CHR ''^'' then None
          else
            (case parse_items cs of
               None \<Rightarrow> None
             | Some is \<Rightarrow>
                 if distinct (group_names is)
                 then Some (\<lambda>s. map_option map_of (match_items is s))
                 else None))"

section \<open>Segment kinds and concrete environments\<close>

datatype seg_kind = Literal | SimpleField | ComplexField

definition kind :: "node \<Rightarrow> seg_kind" where
  "kind n =
     (if \<not> is_var (attrs n) then Literal
      else if is_complex (attrs n) then ComplexField else SimpleField)"

text \<open>
  The shape signature of the specification: the segment with every field expression
  replaced by a placeholder token. The token is \<open>None\<close>, which no character of the text
  equals; a character of the text is \<open>Some\<close> of it.
\<close>

definition shape_signature :: "string \<Rightarrow> char option list" where
  "shape_signature segment = map (\<lambda>p. case p of Lit c \<Rightarrow> Some c | Fld f \<Rightarrow> None) (parts segment)"

text \<open>The table of sibling conflicts, existing sibling first, new segment second.\<close>

fun conflict_table :: "seg_kind \<Rightarrow> seg_kind \<Rightarrow> bool \<Rightarrow> bool" where
  "conflict_table SimpleField SimpleField same = True"
| "conflict_table ComplexField ComplexField same = same"
| "conflict_table existing new same = False"

text \<open>
  Two converter classes and an environment to run the model on: an integer converter that
  rejects everything but digits, and a converter that takes the rest of the path.
\<close>

definition digit_val :: "char \<Rightarrow> int" where
  "digit_val c = int (of_char c) - 48"

definition int_convert :: converter where
  "int_convert v =
     (case v of
        PStr s \<Rightarrow>
          if s \<noteq> [] \<and> list_all (\<lambda>c. 48 \<le> (of_char c :: nat) \<and> (of_char c :: nat) \<le> 57) s
          then PInt (foldl (\<lambda>a c. 10 * a + digit_val c) 0 s)
          else PNone
      | _ \<Rightarrow> PNone)"

definition int_class :: converter_class where
  "int_class = \<lparr>CONSUME_MULTIPLE_SEGMENTS = False,
                instantiate = (\<lambda>a. if a = None then Some int_convert else None)\<rparr>"

definition path_class :: converter_class where
  "path_class = \<lparr>CONSUME_MULTIPLE_SEGMENTS = True,
                 instantiate = (\<lambda>a. if a = None then Some (\<lambda>v. v) else None)\<rparr>"

definition demo_env :: env where
  "demo_env = \<lparr>converter_map = [''int'' \<mapsto> int_class, ''path'' \<mapsto> path_class],
               re_compile = simple_re,
               should_wrap_non_coroutines = False,
               wrap_sync_to_async = (\<lambda>r. r\<lparr>iscoroutinefunction := True\<rparr>)\<rparr>"

section \<open>Well-formed trees\<close>

text \<open>
  What registration establishes for every node: its attributes are those that
  \<^verbatim>\<open>CompiledRouterNode\<close> computes from its segment, the segment passed validation, a converter
  that consumes multiple segments stands in a simple field only, and then the node has
  no children. Among siblings, the segments are distinct and at most one is a simple field.
\<close>

definition proper_attrs :: "env \<Rightarrow> segment_attrs \<Rightarrow> bool" where
  "proper_attrs E a =
     (case CompiledRouterNode E (raw_segment a) of Inl e \<Rightarrow> False | Inr n0 \<Rightarrow> attrs n0 = a)"

definition seg_valid :: "env \<Rightarrow> string \<Rightarrow> bool" where
  "seg_valid E s = (case validate_template_segment E s [] of Inl e \<Rightarrow> False | Inr u \<Rightarrow> True)"

definition uses_cmp :: "env \<Rightarrow> segment_attrs \<Rightarrow> bool" where
  "uses_cmp E a =
     list_ex (\<lambda>(f, c, x). case converter_map E c of
                             None \<Rightarrow> False
                           | Some klass \<Rightarrow> CONSUME_MULTIPLE_SEGMENTS klass)
       (var_converter_map a)"

definition siblings_ok :: "node list \<Rightarrow> bool" where
  "siblings_ok nodes =
     (distinct (map (\<lambda>n. raw_segment (attrs n)) nodes) \<and> length (filter is_simple nodes) \<le> 1)"

fun wf_node :: "env \<Rightarrow> node \<Rightarrow> bool" where
  "wf_node E (Node a m r u ch) =
     (proper_attrs E a \<and> seg_valid E (raw_segment a)
      \<and> (is_complex a \<longrightarrow> \<not> uses_cmp E a)
      \<and> (uses_cmp E a \<longrightarrow> ch = [])
      \<and> siblings_ok ch \<and> (\<forall>c \<in> set ch. wf_node E c))"

definition wf_roots :: "env \<Rightarrow> node list \<Rightarrow> bool" where
  "wf_roots E roots = (siblings_ok roots \<and> (\<forall>n \<in> set roots. wf_node E n))"

text \<open>
  The trees that calls of \<^verbatim>\<open>add_route\<close> lead to from the empty router, whether a call
  returns or raises: a caller may catch the exception and go on registering.
\<close>

inductive reachable :: "env \<Rightarrow> node list \<Rightarrow> bool" for E :: env where
  empty: "reachable E []"
| add: "reachable E roots \<Longrightarrow> add_route E roots template res mm asgi = (e, roots')
        \<Longrightarrow> reachable E roots'"

text \<open>
  A segment uses a multi-segment converter when one of its fields names a converter whose
  class consumes multiple segments.
\<close>

definition segment_uses_cmp :: "env \<Rightarrow> string \<Rightarrow> bool" where
  "segment_uses_cmp E s =
     list_ex (\<lambda>f. case cname f of
                     None \<Rightarrow> False
                   | Some cn \<Rightarrow>
                       cn \<noteq> [] \<and>
                       (case converter_map E cn of
                          None \<Rightarrow> False
                        | Some klass \<Rightarrow> CONSUME_MULTIPLE_SEGMENTS klass))
       (finditer s)"

text \<open>A node and the nodes below it; the nodes of a tree.\<close>

fun descendants :: "node \<Rightarrow> node list" where
  "descendants (Node a m r u ch) = Node a m r u ch # concat (map descendants ch)"

definition all_nodes :: "node list \<Rightarrow> node list" where
  "all_nodes roots = concat (map descendants roots)"

text \<open>The converter entries that the fields of a segment give a node, in \<^verbatim>\<open>var_converter_map\<close>.\<close>

definition field_converters :: "field_match list \<Rightarrow> (string \<times> string \<times> string option) list" where
  "field_converters ms =
     concat (map (\<lambda>f. case cname f of
                          None \<Rightarrow> []
                        | Some cn \<Rightarrow> if cn = [] then [] else [(fname f, cn, argstr f)]) ms)"

text \<open>
  The structure of a tree: the segments of its nodes and how they are nested, without what
  is bound to them.
\<close>

datatype skeleton = Skeleton segment_attrs "skeleton list"

fun skeleton_of :: "node \<Rightarrow> skeleton" where
  "skeleton_of (Node a m r u ch) = Skeleton a (map skeleton_of ch)"


definition binding_of :: "node \<Rightarrow> method_map option \<times> resource option \<times> string option" where
  "binding_of n = (method_map n, resource n, uri_template n)"

section \<open>Properties of registration\<close>

lemma CompiledRouterNode_fresh:
  assumes "CompiledRouterNode E s = Inr n"
  shows "raw_segment (attrs n) = s" and "children n = []" and "resource n = None"
    and "is_complex (attrs n) \<Longrightarrow> is_var (attrs n)"
  using assms unfolding CompiledRouterNode_def Let_def
  by (auto split: if_splits option.splits prod.splits list.splits)

lemma conflicts_with_table:
  assumes "CompiledRouterNode E segment = Inr other" and "\<not> matches n segment"
  shows "conflicts_with E n segment =
     Inr (conflict_table (kind n) (kind other)
            (field_sub (\<lambda>f. ''v'') (raw_segment (attrs n)) = field_sub (\<lambda>f. ''v'') segment))"
  using assms CompiledRouterNode_fresh(4) [OF assms(1)]
  by (auto simp: conflicts_with_def kind_def)

text \<open>
  C7. The pattern of a complex segment does not escape a backslash of the segment text:
  for the segment \<^verbatim>\<open>\d{a}\<close> the pattern text is \<^verbatim>\<open>^\d(?P<a>.+)$\<close>, in which the
  backslash and the letter form the digit class.
\<close>

theorem pattern_text_keeps_backslash:
  "pattern_text [CHR 0x5C, CHR ''d'', CHR ''{'', CHR ''a'', CHR ''}'']
     = [CHR ''^'', CHR 0x5C, CHR ''d''] @ ''(?P<a>.+)$''"
  by code_simp

text \<open>
  C8. A field name that ends in a newline is not an identifier, yet the template
  \<^verbatim>\<open>/{a\n}\<close> is accepted: \<^verbatim>\<open>add_route\<close> raises nothing and registers the node.
\<close>

theorem newline_field_name_accepted:
  "\<not> valid_identifier [CHR ''a'', CHR 0x0A]
   \<and> fst (add_route demo_env [] [CHR ''/'', CHR ''{'', CHR ''a'', CHR 0x0A, CHR ''}'']
            1 [] False) = None"
  by code_simp

text \<open>
  C2. On the empty router, \<^verbatim>\<open>add_route\<close> of \<^verbatim>\<open>/a/{b:path}/c\<close> raises
  \<^verbatim>\<open>UnacceptableRouteError\<close> and leaves the node of the segment \<^verbatim>\<open>a\<close> in the tree.
\<close>

theorem failed_add_route_leaves_node:
  "add_route demo_env [] ''/a/{b:path}/c'' 1 [] False
     = (Some UnacceptableRouteError,
        [Node \<lparr>raw_segment = ''a'', is_var = False, is_complex = False, num_fields = 0,
                var_name = None, var_pattern = None, var_converter_map = []\<rparr>
           None None None []])"
  by code_simp

lemma wf_node_iff:
  "wf_node E n = (proper_attrs E (attrs n) \<and> seg_valid E (raw_segment (attrs n))
      \<and> (is_complex (attrs n) \<longrightarrow> \<not> uses_cmp E (attrs n))
      \<and> (uses_cmp E (attrs n) \<longrightarrow> children n = [])
      \<and> siblings_ok (children n) \<and> (\<forall>c \<in> set (children n). wf_node E c))"
  by (cases n) simp

lemma scan_Matched:
  "scan E nodes s = Matched i \<Longrightarrow> i < length nodes \<and> matches (nodes ! i) s"
proof (induction nodes arbitrary: i)
  case Nil
  then show ?case by simp
next
  case (Cons n nodes)
  show ?case
  proof (cases "matches n s")
    case True
    with Cons.prems show ?thesis by simp
  next
    case False
    with Cons.prems obtain j where "scan E nodes s = Matched j" "i = Suc j"
      by (auto split: sum.splits bool.splits scan_result.splits)
    with Cons.IH [of j] show ?thesis by simp
  qed
qed

lemma scan_Unmatched:
  "scan E nodes s = Unmatched
   \<Longrightarrow> \<forall>n \<in> set nodes. \<not> matches n s \<and> conflicts_with E n s = Inr False"
proof (induction nodes)
  case Nil
  then show ?case by simp
next
  case (Cons n nodes)
  from Cons.prems have a: "\<not> matches n s" by (auto split: if_splits)
  with Cons.prems have b: "conflicts_with E n s = Inr False"
    by (auto split: sum.splits bool.splits scan_result.splits)
  with a Cons.prems have "scan E nodes s = Unmatched"
    by (auto split: scan_result.splits)
  with Cons.IH a b show ?case by simp
qed

lemma cmp_converters_list_ex:
  "cmp_converters E vcm = Inr v \<Longrightarrow>
     (v \<noteq> []) = list_ex (\<lambda>(f, c, x). case converter_map E c of
                             None \<Rightarrow> False
                           | Some klass \<Rightarrow> CONSUME_MULTIPLE_SEGMENTS klass) vcm"
proof (induction vcm arbitrary: v)
  case Nil
  then show ?case by simp
next
  case (Cons t vcm)
  obtain f c x where t: "t = (f, c, x)" by (cases t)
  from Cons.prems t obtain k v' where k: "converter_map E c = Some k"
      and v': "cmp_converters E vcm = Inr v'"
      and v: "v = (if CONSUME_MULTIPLE_SEGMENTS k then (f, c) # v' else v')"
    by (auto split: option.splits sum.splits)
  from Cons.IH [OF v'] k v t show ?case by auto
qed

lemma find_cmp_converter_None:
  "find_cmp_converter E n = Inr None \<Longrightarrow> \<not> uses_cmp E (attrs n)"
  unfolding find_cmp_converter_def uses_cmp_def
  using cmp_converters_list_ex [of E "var_converter_map (attrs n)"]
  by (auto split: sum.splits list.splits)

lemma siblings_ok_update:
  assumes "siblings_ok nodes" "i < length nodes" "attrs n' = attrs (nodes ! i)"
  shows "siblings_ok (nodes[i := n'])"
proof -
  have m: "map attrs (nodes[i := n']) = map attrs nodes"
    using assms(2,3) by (simp add: map_update list_update_same_conv)
  have r: "map (\<lambda>n. raw_segment (attrs n)) xs = map raw_segment (map attrs xs)" for xs :: "node list"
    by simp
  have f: "length (filter is_simple xs) = length (filter (\<lambda>a. is_var a \<and> \<not> is_complex a) (map attrs xs))"
    for xs :: "node list"
    by (induction xs) (auto simp: is_simple_def)
  from assms(1) show ?thesis
    unfolding siblings_ok_def r f m .
qed

lemma is_simple_kind: "is_simple n = (kind n = SimpleField)"
  by (simp add: is_simple_def kind_def)

lemma siblings_ok_append:
  assumes ok: "siblings_ok nodes"
    and un: "\<forall>n \<in> set nodes. \<not> matches n s \<and> conflicts_with E n s = Inr False"
    and new: "CompiledRouterNode E s = Inr new" and a: "attrs n' = attrs new"
  shows "siblings_ok (nodes @ [n'])"
proof -
  have raw: "raw_segment (attrs n') = s"
    using CompiledRouterNode_fresh(1) [OF new] a by simp
  have d: "raw_segment (attrs n') \<notin> set (map (\<lambda>n. raw_segment (attrs n)) nodes)"
    using un raw by (auto simp: matches_def)
  have k: "kind n' = kind new" using a by (simp add: kind_def)
  have s: "is_simple n' \<Longrightarrow> filter is_simple nodes = []"
  proof -
    assume "is_simple n'"
    then have kn: "kind new = SimpleField" using k by (simp add: is_simple_kind)
    have "\<not> is_simple n" if "n \<in> set nodes" for n
    proof
      assume "is_simple n"
      then have "kind n = SimpleField" by (simp add: is_simple_kind)
      moreover from un that have "\<not> matches n s" "conflicts_with E n s = Inr False" by auto
      ultimately show False
        using conflicts_with_table [OF new, of n] kn by simp
    qed
    then show ?thesis by (simp add: filter_empty_conv)
  qed
  from ok d s show ?thesis
    unfolding siblings_ok_def by (cases "is_simple n'") auto
qed

lemma proper_fresh: "CompiledRouterNode E s = Inr new \<Longrightarrow> proper_attrs E (attrs new)"
  using CompiledRouterNode_fresh(1) [of E s new] by (simp add: proper_attrs_def)

lemma wf_node_bind: "wf_node E n \<Longrightarrow> wf_node E (bind_node b n)"
  by (cases n; cases b) (simp add: bind_node_def)

lemma attrs_bind [simp]: "attrs (bind_node b n) = attrs n"
  by (cases b) (simp add: bind_node_def)

lemma attrs_set_children [simp]: "attrs (set_children n ch) = attrs n"
  by (simp add: set_children_def)

lemma children_set_children [simp]: "children (set_children n ch) = ch"
  by (simp add: set_children_def)

lemma children_bind [simp]: "children (bind_node b n) = children n"
  by (cases b) (simp add: bind_node_def)

lemma wf_roots_update:
  assumes "wf_roots E nodes" "i < length nodes" "attrs n' = attrs (nodes ! i)" "wf_node E n'"
  shows "wf_roots E (nodes[i := n'])"
  using assms siblings_ok_update [of nodes i n']
  unfolding wf_roots_def by (auto dest!: set_update_subset_insert [THEN subsetD])

lemma wf_roots_append:
  assumes "wf_roots E nodes"
    and "\<forall>n \<in> set nodes. \<not> matches n s \<and> conflicts_with E n s = Inr False"
    and "CompiledRouterNode E s = Inr new" and "attrs n' = attrs new" and "wf_node E n'"
  shows "wf_roots E (nodes @ [n'])"
  using assms siblings_ok_append [of nodes s E new n']
  unfolding wf_roots_def by auto

lemma wf_roots_Nil [simp]: "wf_roots E []"
  by (simp add: wf_roots_def siblings_ok_def)

lemma insert_wf:
  "list_all (seg_valid E) path \<Longrightarrow> wf_roots E nodes \<Longrightarrow> insert E b nodes path = (e, nodes')
   \<Longrightarrow> wf_roots E nodes'"
proof (induction path arbitrary: nodes e nodes')
  case Nil
  then show ?case by simp
next
  case (Cons segment rest)
  have sv: "seg_valid E segment" and rv: "list_all (seg_valid E) rest"
    using Cons.prems(1) by simp_all
  note wf = Cons.prems(2)
  note ins = Cons.prems(3)
  show ?case
  proof (cases "scan E nodes segment")
    case (Matched i)
    from scan_Matched [OF Matched] have i: "i < length nodes" and m: "matches (nodes ! i) segment"
      by simp_all
    let ?n = "nodes ! i"
    from wf i have wn: "wf_node E ?n" by (simp add: wf_roots_def)
    show ?thesis
    proof (cases "rest = []")
      case True
      with ins Matched have "nodes' = nodes[i := bind_node b ?n]" by simp
      with wf_roots_update [OF wf i _ wf_node_bind [OF wn, of b]] show ?thesis by simp
    next
      case False
      show ?thesis
      proof (cases "find_cmp_converter E ?n")
        case (Inl err)
        with ins Matched False have "nodes' = nodes" by simp
        with wf show ?thesis by simp
      next
        case (Inr c)
        show ?thesis
        proof (cases c)
          case (Some cpc)
          with ins Matched False Inr have "nodes' = nodes" by simp
          with wf show ?thesis by simp
        next
          case None
          obtain e1 ch where r: "insert E b (children ?n) rest = (e1, ch)"
            by (cases "insert E b (children ?n) rest")
          from ins Matched False Inr None r
          have n': "nodes' = nodes[i := set_children ?n ch]" by simp
          from wn have wch: "wf_roots E (children ?n)"
            by (simp add: wf_node_iff [of E ?n] wf_roots_def)
          from Cons.IH [OF rv wch r] have "wf_roots E ch" .
          moreover from find_cmp_converter_None Inr None have "\<not> uses_cmp E (attrs ?n)" by simp
          ultimately have "wf_node E (set_children ?n ch)"
            using wn by (simp add: wf_node_iff [of E ?n] wf_node_iff [of E "set_children ?n ch"]
                wf_roots_def)
          with wf_roots_update [OF wf i, of "set_children ?n ch"] n' show ?thesis by simp
        qed
      qed
    qed
  next
    case (Raised err)
    with ins have "nodes' = nodes" by simp
    with wf show ?thesis by simp
  next
    case Unmatched
    note un = scan_Unmatched [OF Unmatched]
    show ?thesis
    proof (cases "CompiledRouterNode E segment")
      case (Inl err)
      with ins Unmatched have "nodes' = nodes" by simp
      with wf show ?thesis by simp
    next
      case (Inr new)
      note fresh = CompiledRouterNode_fresh [OF Inr]
      have base: "proper_attrs E (attrs new)" "seg_valid E (raw_segment (attrs new))"
        using proper_fresh [OF Inr] sv fresh(1) by simp_all
      let ?c = "if is_complex (attrs new) then find_cmp_converter E new else Inr None"
      show ?thesis
      proof (cases ?c)
        case (Inl err)
        with ins Unmatched Inr have "nodes' = nodes" by simp
        with wf show ?thesis by simp
      next
        case c: (Inr c)
        show ?thesis
        proof (cases c)
          case (Some cpc)
          with ins Unmatched Inr c have "nodes' = nodes" by simp
          with wf show ?thesis by simp
        next
          case None
          with c have cx: "is_complex (attrs new) \<Longrightarrow> \<not> uses_cmp E (attrs new)"
            using find_cmp_converter_None [of E new] by (simp split: if_splits)
          have wnew: "wf_node E n'" if "attrs n' = attrs new" "children n' = []" for n'
            using that base cx by (simp add: wf_node_iff [of E n'] siblings_ok_def)
          show ?thesis
          proof (cases "rest = []")
            case True
            with ins Unmatched Inr c None have n': "nodes' = nodes @ [bind_node b new]" by simp
            from wf_roots_append [OF wf un Inr, of "bind_node b new"] wnew [of "bind_node b new"] fresh(2)
            show ?thesis unfolding n' by simp
          next
            case False
            show ?thesis
            proof (cases "find_cmp_converter E new")
              case (Inl err)
              with ins Unmatched Inr c None False have n': "nodes' = nodes @ [new]" by simp
              from wf_roots_append [OF wf un Inr, of new] wnew [of new] fresh(2)
              show ?thesis unfolding n' by simp
            next
              case f: (Inr f)
              show ?thesis
              proof (cases f)
                case (Some cpc)
                with ins Unmatched Inr c None False f have "nodes' = nodes" by simp
                with wf show ?thesis by simp
              next
                case fn: None
                obtain e1 ch where r: "insert E b (children new) rest = (e1, ch)"
                  by (cases "insert E b (children new) rest")
                from ins Unmatched Inr c None False f fn r
                have n': "nodes' = nodes @ [set_children new ch]" by simp
                from Cons.IH [OF rv _ r] fresh(2) have wch: "wf_roots E ch" by simp
                from find_cmp_converter_None f fn have "\<not> uses_cmp E (attrs new)" by simp
                with wch base cx have "wf_node E (set_children new ch)"
                  by (simp add: wf_node_iff [of E "set_children new ch"] wf_roots_def)
                with wf_roots_append [OF wf un Inr, of "set_children new ch"]
                show ?thesis unfolding n' by simp
              qed
            qed
          qed
        qed
      qed
    qed
  qed
qed

lemma validate_fields_step:
  assumes "validate_fields E (f # fs) used = Inr u"
  shows "identifier_match (fname f)" and "fname f \<notin> set kwlist" and "fname f \<notin> set used"
    and "cname_sep f \<noteq> Some '':''"
    and "validate_fields E fs (fname f # used) = Inr u"
    and "cname f = Some cn \<Longrightarrow> cn \<noteq> []
         \<Longrightarrow> \<exists>k conv. converter_map E cn = Some k \<and> instantiate k (argstr f) = Some conv"
proof -
  from assms show a: "identifier_match (fname f)" "fname f \<notin> set kwlist"
    by (auto simp: Let_def split: if_splits)
  from assms a show b: "fname f \<notin> set used"
    by (auto simp: Let_def split: if_splits)
  from assms a b show c: "cname_sep f \<noteq> Some '':''"
    by (auto simp: Let_def split: if_splits)
  from assms a b c show d: "validate_fields E fs (fname f # used) = Inr u"
    by (simp add: Let_def split: option.splits if_splits)
  assume "cname f = Some cn" "cn \<noteq> []"
  with assms a b c
  show "\<exists>k conv. converter_map E cn = Some k \<and> instantiate k (argstr f) = Some conv"
    by (simp add: Let_def split: option.splits if_splits)
qed

lemma validate_fields_mono:
  "validate_fields E fs used = Inr u \<Longrightarrow> set used' \<subseteq> set used
   \<Longrightarrow> \<exists>u'. validate_fields E fs used' = Inr u'"
proof (induction fs arbitrary: used used' u)
  case Nil
  then show ?case by simp
next
  case (Cons f fs)
  note s = validate_fields_step [OF Cons.prems(1)]
  from Cons.prems(2) have "set (fname f # used') \<subseteq> set (fname f # used)" by auto
  from Cons.IH [OF s(5) this] obtain u' where u': "validate_fields E fs (fname f # used') = Inr u'"
    by blast
  from s(3) Cons.prems(2) have nu: "fname f \<notin> set used'" by auto
  show ?case
  proof (cases "cname f")
    case None
    with s(1,2,4) nu u' show ?thesis by (simp add: Let_def)
  next
    case (Some cn)
    show ?thesis
    proof (cases "cn = []")
      case True
      with Some s(1,2,4) nu u' show ?thesis by (simp add: Let_def)
    next
      case False
      from s(6) [OF Some False] obtain k conv where
        "converter_map E cn = Some k" "instantiate k (argstr f) = Some conv" by blast
      with Some False s(1,2,4) nu u' show ?thesis by (simp add: Let_def)
    qed
  qed
qed

lemma validate_path_seg_valid:
  "validate_path E path used = Inr u \<Longrightarrow> list_all (seg_valid E) path"
proof (induction path arbitrary: used)
  case Nil
  then show ?case by simp
next
  case (Cons s path)
  from Cons.prems obtain u1 where u1: "validate_template_segment E s used = Inr u1"
    and rest: "validate_path E path u1 = Inr u"
    by (auto split: sum.splits)
  from u1 validate_fields_mono [of E "finditer s" used u1 "[]"]
  have "seg_valid E s" by (auto simp: seg_valid_def validate_template_segment_def)
  with Cons.IH [OF rest] show ?case by simp
qed

lemma add_route_wf:
  assumes "wf_roots E roots" "add_route E roots template res mm asgi = (e, roots')"
  shows "wf_roots E roots'"
proof -
  let ?r = "if asgi then require_coroutine_responders E mm else require_non_coroutine_responders mm"
  show ?thesis
  proof (cases ?r)
    case (Inl err)
    with assms show ?thesis by (simp add: add_route_def)
  next
    case (Inr mm')
    show ?thesis
    proof (cases "list_ex is_space (field_sub (\<lambda>f. ''{FIELD}'') template)")
      case True
      with Inr assms show ?thesis by (simp add: add_route_def)
    next
      case False
      let ?path = "split_slash (lstrip_slash template)"
      show ?thesis
      proof (cases "validate_path E ?path []")
        case (Inl err)
        with False Inr assms show ?thesis by (simp add: add_route_def)
      next
        case v: (Inr u)
        with False Inr assms(2)
        have "insert E (mm', res, template) roots ?path = (e, roots')"
          by (simp add: add_route_def)
        from insert_wf [OF validate_path_seg_valid [OF v] assms(1) this] show ?thesis .
      qed
    qed
  qed
qed

lemma reachable_wf: "reachable E roots \<Longrightarrow> wf_roots E roots"
  by (induction rule: reachable.induct) (auto intro: add_route_wf)

section \<open>The pasted text in the generated source\<close>

text \<open>
  C5. The segments \<^verbatim>\<open>{a}v\<close> and \<^verbatim>\<open>v{b}\<close> have different shape signatures, and each registers
  on an empty router; yet with \<^verbatim>\<open>/{a}v\<close> registered, \<^verbatim>\<open>add_route\<close> of \<^verbatim>\<open>/v{b}\<close> raises
  \<^verbatim>\<open>UnacceptableRouteError\<close>: the letter that \<^verbatim>\<open>conflicts_with\<close> puts in place of a field is
  also a letter of the text.
\<close>

theorem placeholder_letter_conflict:
  "shape_signature ''{a}v'' \<noteq> shape_signature ''v{b}''
   \<and> fst (add_route demo_env [] ''/{a}v'' 1 [] False) = None
   \<and> fst (add_route demo_env [] ''/v{b}'' 2 [] False) = None
   \<and> fst (add_route demo_env (snd (add_route demo_env [] ''/{a}v'' 1 [] False))
            ''/v{b}'' 2 [] False) = Some UnacceptableRouteError"
  by code_simp

text \<open>
  C1. The template \<^verbatim>\<open>/it's\<close> is accepted, and the source generated for the router pastes the
  segment between single quotes, so that the fourth line holds a string that does not end.
\<close>

theorem apostrophe_segment_source:
  "fst (add_route demo_env [] (''/it'' @ quote @ ''s'') 1 [] False) = None
   \<and> finder_src demo_env (snd (add_route demo_env [] (''/it'' @ quote @ ''s'') 1 [] False))
       = Inr (join newline
           [''def find(path, return_values, patterns, converters, params):'',
            ''    path_len = len(path)'',
            ''    if path_len > 0:'',
            ''        if path[0] == '' @ quote @ ''it'' @ quote @ ''s'' @ quote @ '':'',
            ''            if path_len == 1:'',
            ''                return return_values[0]'',
            ''            return None'',
            ''        return None'',
            ''    return None''])"
  by code_simp

text \<open>
  C3. The template \<^verbatim>\<open>/'or(params.update(k=1))or'\<close> is accepted, and in the generated source
  its segment closes the quote and makes the call of \<^verbatim>\<open>params.update\<close> part of the test of
  the first segment: the call runs on every path whose first segment is not empty, and the
  test then fails.
\<close>

theorem update_in_test_source:
  "fst (add_route demo_env [] (''/'' @ quote @ ''or(params.update(k=1))or'' @ quote) 1 [] False)
     = None
   \<and> finder_src demo_env
         (snd (add_route demo_env [] (''/'' @ quote @ ''or(params.update(k=1))or'' @ quote)
                 1 [] False))
       = Inr (join newline
           [''def find(path, return_values, patterns, converters, params):'',
            ''    path_len = len(path)'',
            ''    if path_len > 0:'',
            ''        if path[0] == '' @ quote @ quote @ ''or(params.update(k=1))or''
              @ quote @ quote @ '':'',
            ''            if path_len == 1:'',
            ''                return return_values[0]'',
            ''            return None'',
            ''        return None'',
            ''    return None''])"
  by code_simp

text \<open>
  C4. With the template \<^verbatim>\<open>/'or(params.update(k=1))or'\<close> registered beside \<^verbatim>\<open>/{x}\<close>, the
  generated source runs the call of \<^verbatim>\<open>params.update\<close> in the test of the literal and then
  returns the node of \<^verbatim>\<open>/{x}\<close> with \<^verbatim>\<open>params['x']\<close> set as well.
\<close>

theorem extra_key_source:
  "fst (add_route demo_env
          (snd (add_route demo_env [] (''/'' @ quote @ ''or(params.update(k=1))or'' @ quote)
                  1 [] False))
          ''/{x}'' 2 [] False) = None
   \<and> finder_src demo_env
         (snd (add_route demo_env
                 (snd (add_route demo_env []
                         (''/'' @ quote @ ''or(params.update(k=1))or'' @ quote) 1 [] False))
                 ''/{x}'' 2 [] False))
       = Inr (join newline
           [''def find(path, return_values, patterns, converters, params):'',
            ''    path_len = len(path)'',
            ''    if path_len > 0:'',
            ''        if path[0] == '' @ quote @ quote @ ''or(params.update(k=1))or''
              @ quote @ quote @ '':'',
            ''            if path_len == 1:'',
            ''                return return_values[0]'',
            ''        if path_len == 1:'',
            ''            params['' @ quote @ ''x'' @ quote @ ''] = path[0]'',
            ''            return return_values[1]'',
            ''    return None''])"
  by code_simp

text \<open>
  C10. The template \<^verbatim>\<open>/{id:int}/x'or(field_value_1:=None)or'y\<close> is accepted, and in the
  generated source the test of its second segment assigns \<^verbatim>\<open>None\<close> to the variable that
  holds the converted value, inside the branch that the converter guards and before the
  value is stored in \<^verbatim>\<open>params\<close>.
\<close>

theorem converted_value_overwritten_source:
  "fst (add_route demo_env []
          (''/{id:int}/x'' @ quote @ ''or(field_value_1:=None)or'' @ quote @ ''y'') 1 [] False)
     = None
   \<and> finder_src demo_env
         (snd (add_route demo_env []
                 (''/{id:int}/x'' @ quote @ ''or(field_value_1:=None)or'' @ quote @ ''y'')
                 1 [] False))
       = Inr (join newline
           [''def find(path, return_values, patterns, converters, params):'',
            ''    path_len = len(path)'',
            ''    if path_len > 0:'',
            ''        fragment = path[0]'',
            ''        field_value_1 = converters[0].convert(fragment)'',
            ''        if field_value_1 is not None:'',
            ''            if path_len > 1:'',
            ''                if path[1] == '' @ quote @ ''x'' @ quote
              @ ''or(field_value_1:=None)or'' @ quote @ ''y'' @ quote @ '':'',
            ''                    if path_len == 2:'',
            ''                        params['' @ quote @ ''id'' @ quote @ ''] = field_value_1'',
            ''                        return return_values[0]'',
            ''                    return None'',
            ''                return None'',
            ''            return None'',
            ''    return None''])"
  by code_simp

section \<open>Multi-segment converters\<close>

lemma validate_fields_error:
  "validate_fields E fs used = Inl e \<Longrightarrow> e = UnacceptableRouteError"
proof (induction fs arbitrary: used)
  case Nil
  then show ?case by simp
next
  case (Cons f fs)
  show ?case
  proof (cases "validate_fields E fs (fname f # used) = Inl e")
    case True
    with Cons.IH show ?thesis by blast
  next
    case False
    with Cons.prems show ?thesis
      by (simp add: Let_def split: if_splits option.splits)
  qed
qed

lemma validate_path_error:
  "validate_path E path used = Inl e \<Longrightarrow> e = UnacceptableRouteError"
proof (induction path arbitrary: used)
  case Nil
  then show ?case by simp
next
  case (Cons s path)
  show ?case
  proof (cases "validate_template_segment E s used")
    case (Inl e')
    with Cons.prems have "e = e'" by simp
    with Inl validate_fields_error [of E "finditer s" used e'] show ?thesis
      by (simp add: validate_template_segment_def)
  next
    case (Inr u)
    with Cons.prems Cons.IH [of u] show ?thesis by simp
  qed
qed

lemma validate_fields_known:
  "validate_fields E fs used = Inr u \<Longrightarrow> f \<in> set fs \<Longrightarrow> cname f = Some cn \<Longrightarrow> cn \<noteq> []
   \<Longrightarrow> converter_map E cn \<noteq> None"
proof (induction fs arbitrary: used)
  case Nil
  then show ?case by simp
next
  case (Cons g fs)
  note s = validate_fields_step [OF Cons.prems(1)]
  show ?case
  proof (cases "f = g")
    case True
    with s(6) Cons.prems(3,4) show ?thesis by auto
  next
    case False
    with Cons.prems(2) have "f \<in> set fs" by simp
    from Cons.IH [OF s(5) this Cons.prems(3,4)] show ?thesis .
  qed
qed

lemma CompiledRouterNode_vcm:
  assumes "CompiledRouterNode E s = Inr n"
  shows "var_converter_map (attrs n) = field_converters (finditer s)"
proof (cases "finditer s = []")
  case True
  with assms show ?thesis
    by (auto simp: CompiledRouterNode_def field_converters_def Let_def split: if_splits)
next
  case False
  with assms show ?thesis
    unfolding CompiledRouterNode_def field_converters_def Let_def
    by (auto split: option.splits prod.splits list.splits if_splits sum.splits)
qed

lemma proper_vcm:
  assumes "proper_attrs E a"
  shows "var_converter_map a = field_converters (finditer (raw_segment a))"
proof -
  from assms obtain n0 where "CompiledRouterNode E (raw_segment a) = Inr n0" "attrs n0 = a"
    by (auto simp: proper_attrs_def split: sum.splits)
  with CompiledRouterNode_vcm [of E "raw_segment a" n0] show ?thesis by simp
qed

lemma uses_cmp_field_converters:
  "list_ex (\<lambda>(f, c, x). case converter_map E c of
                             None \<Rightarrow> False
                           | Some klass \<Rightarrow> CONSUME_MULTIPLE_SEGMENTS klass)
       (field_converters ms)
   = list_ex (\<lambda>f. case cname f of
                     None \<Rightarrow> False
                   | Some cn \<Rightarrow>
                       cn \<noteq> [] \<and>
                       (case converter_map E cn of
                          None \<Rightarrow> False
                        | Some klass \<Rightarrow> CONSUME_MULTIPLE_SEGMENTS klass)) ms"
proof (induction ms)
  case Nil
  show ?case by (simp add: field_converters_def)
next
  case (Cons f ms)
  have c: "field_converters (f # ms)
      = (case cname f of None \<Rightarrow> [] | Some cn \<Rightarrow> if cn = [] then [] else [(fname f, cn, argstr f)])
        @ field_converters ms"
    by (simp add: field_converters_def)
  show ?case unfolding c using Cons.IH by (cases "cname f") auto
qed

lemma proper_uses_cmp:
  "proper_attrs E a \<Longrightarrow> uses_cmp E a = segment_uses_cmp E (raw_segment a)"
  by (simp add: uses_cmp_def segment_uses_cmp_def proper_vcm uses_cmp_field_converters)

lemma cmp_converters_known:
  "\<forall>(f, c, x) \<in> set vcm. converter_map E c \<noteq> None \<Longrightarrow> \<exists>v. cmp_converters E vcm = Inr v"
proof (induction vcm)
  case Nil
  show ?case by simp
next
  case (Cons t vcm)
  obtain f c x where t: "t = (f, c, x)" by (cases t)
  from Cons.prems t obtain k where k: "converter_map E c = Some k" by auto
  from Cons obtain v where "cmp_converters E vcm = Inr v" by auto
  with k t show ?case by simp
qed

lemma field_converters_known:
  assumes "seg_valid E s"
  shows "\<forall>(f, c, x) \<in> set (field_converters (finditer s)). converter_map E c \<noteq> None"
proof -
  from assms obtain u where u: "validate_fields E (finditer s) [] = Inr u"
    by (auto simp: seg_valid_def validate_template_segment_def split: sum.splits)
  have "converter_map E c \<noteq> None" if "(f, c, x) \<in> set (field_converters (finditer s))" for f c x
  proof -
    from that obtain g where g: "g \<in> set (finditer s)" "cname g = Some c" "c \<noteq> []"
      by (auto simp: field_converters_def split: option.splits if_splits)
    from validate_fields_known [OF u g] show ?thesis .
  qed
  then show ?thesis by auto
qed

lemma find_cmp_converter_decides:
  assumes "proper_attrs E (attrs n)" "seg_valid E (raw_segment (attrs n))"
  shows "\<exists>r. find_cmp_converter E n = Inr r
              \<and> (r \<noteq> None) = segment_uses_cmp E (raw_segment (attrs n))"
proof -
  from cmp_converters_known [OF field_converters_known [OF assms(2)]] proper_vcm [OF assms(1)]
  obtain v where v: "cmp_converters E (var_converter_map (attrs n)) = Inr v" by auto
  from cmp_converters_list_ex [OF v] proper_uses_cmp [OF assms(1)]
  have "(v \<noteq> []) = segment_uses_cmp E (raw_segment (attrs n))" by (simp add: uses_cmp_def)
  with v show ?thesis
    by (cases v) (auto simp: find_cmp_converter_def)
qed

lemma scan_Raised:
  "scan E nodes s = Raised e \<Longrightarrow> CompiledRouterNode E s = Inr new \<Longrightarrow> e = UnacceptableRouteError"
proof (induction nodes)
  case Nil
  then show ?case by simp
next
  case (Cons n nodes)
  from Cons.prems(1) have nm: "\<not> matches n s" by (auto split: if_splits)
  from conflicts_with_table [OF Cons.prems(2) nm] obtain c where c: "conflicts_with E n s = Inr c"
    by blast
  show ?case
  proof (cases c)
    case True
    with c nm Cons.prems(1) show ?thesis by simp
  next
    case False
    with c nm Cons.prems(1) have "scan E nodes s = Raised e"
      by (auto split: scan_result.splits)
    with Cons.IH Cons.prems(2) show ?thesis by simp
  qed
qed

lemma insert_cmp_raises:
  "list_all (seg_valid E) path \<Longrightarrow> \<forall>s \<in> set path. CompiledRouterNode E s \<noteq> Inl ReError
   \<Longrightarrow> wf_roots E nodes \<Longrightarrow> Suc i < length path \<Longrightarrow> segment_uses_cmp E (path ! i)
   \<Longrightarrow> fst (insert E b nodes path) = Some UnacceptableRouteError"
proof (induction path arbitrary: nodes i)
  case Nil
  then show ?case by simp
next
  case (Cons segment rest)
  have sv: "seg_valid E segment" and rv: "list_all (seg_valid E) rest"
    using Cons.prems(1) by simp_all
  have rc: "\<forall>s \<in> set rest. CompiledRouterNode E s \<noteq> Inl ReError"
    using Cons.prems(2) by simp
  note wf = Cons.prems(3)
  from Cons.prems(4) have ne: "rest \<noteq> []" by auto
  obtain new where new: "CompiledRouterNode E segment = Inr new"
  proof (cases "CompiledRouterNode E segment")
    case (Inl e)
    then have "e = ReError"
      by (auto simp: CompiledRouterNode_def Let_def
          split: if_splits option.splits prod.splits list.splits)
    with Inl Cons.prems(2) show ?thesis by simp
  next
    case (Inr n)
    with that show ?thesis .
  qed
  have below: "\<exists>j. Suc j < length rest \<and> segment_uses_cmp E (rest ! j)"
    if "\<not> segment_uses_cmp E segment"
  proof (cases i)
    case 0
    with Cons.prems(5) that show ?thesis by simp
  next
    case (Suc j)
    with Cons.prems(4,5) show ?thesis by auto
  qed
  show ?case
  proof (cases "scan E nodes segment")
    case (Raised e)
    from scan_Raised [OF Raised new] Raised show ?thesis by simp
  next
    case (Matched k)
    from scan_Matched [OF Matched] have k: "k < length nodes" and m: "matches (nodes ! k) segment"
      by simp_all
    let ?n = "nodes ! k"
    from wf k have wn: "wf_node E ?n" by (simp add: wf_roots_def)
    from m have raw: "raw_segment (attrs ?n) = segment" by (simp add: matches_def)
    from wn have p: "proper_attrs E (attrs ?n)" "seg_valid E (raw_segment (attrs ?n))"
      by (simp_all add: wf_node_iff [of E ?n])
    from find_cmp_converter_decides [OF p] raw obtain r where
      r: "find_cmp_converter E ?n = Inr r" "(r \<noteq> None) = segment_uses_cmp E segment" by auto
    show ?thesis
    proof (cases r)
      case (Some cpc)
      with Matched ne r(1) show ?thesis by simp
    next
      case None
      with r(2) have nu: "\<not> segment_uses_cmp E segment" by simp
      from below [OF nu] obtain j where j: "Suc j < length rest" "segment_uses_cmp E (rest ! j)"
        by blast
      from wn have wch: "wf_roots E (children ?n)"
        by (simp add: wf_node_iff [of E ?n] wf_roots_def)
      from Cons.IH [OF rv rc wch j]
      have "fst (insert E b (children ?n) rest) = Some UnacceptableRouteError" .
      with Matched ne r(1) None show ?thesis
        by (cases "insert E b (children ?n) rest") simp
    qed
  next
    case Unmatched
    note fresh = CompiledRouterNode_fresh [OF new]
    have p: "proper_attrs E (attrs new)" "seg_valid E (raw_segment (attrs new))"
      using proper_fresh [OF new] sv fresh(1) by simp_all
    from find_cmp_converter_decides [OF p] fresh(1) obtain r where
      r: "find_cmp_converter E new = Inr r" "(r \<noteq> None) = segment_uses_cmp E segment" by auto
    show ?thesis
    proof (cases r)
      case (Some cpc)
      with Unmatched new ne r(1) show ?thesis by simp
    next
      case None
      with r(2) have nu: "\<not> segment_uses_cmp E segment" by simp
      from below [OF nu] obtain j where j: "Suc j < length rest" "segment_uses_cmp E (rest ! j)"
        by blast
      from Cons.IH [OF rv rc _ j, of "children new"] fresh(2)
      have "fst (insert E b (children new) rest) = Some UnacceptableRouteError" by simp
      with Unmatched new ne r(1) None show ?thesis
        by (cases "insert E b (children new) rest") simp
    qed
  qed
qed

lemma wf_descendants: "wf_node E n \<Longrightarrow> d \<in> set (descendants n) \<Longrightarrow> wf_node E d"
proof (induction n arbitrary: d)
  case (Node a m r u ch)
  show ?case
  proof (cases "d = Node a m r u ch")
    case True
    with Node.prems(1) show ?thesis by simp
  next
    case False
    with Node.prems(2) obtain c where c: "c \<in> set ch" "d \<in> set (descendants c)" by auto
    from Node.prems(1) c(1) have "wf_node E c" by simp
    from Node.IH [OF c(1) this c(2)] show ?thesis .
  qed
qed

lemma wf_all_nodes: "wf_roots E roots \<Longrightarrow> d \<in> set (all_nodes roots) \<Longrightarrow> wf_node E d"
  by (auto simp: all_nodes_def wf_roots_def intro: wf_descendants)

lemma wf_node_cmp_leaf:
  assumes "wf_node E n" "segment_uses_cmp E (raw_segment (attrs n))"
  shows "children n = []"
proof -
  from assms(1) have "proper_attrs E (attrs n)" "uses_cmp E (attrs n) \<longrightarrow> children n = []"
    by (simp_all add: wf_node_iff [of E n])
  with proper_uses_cmp [of E "attrs n"] assms(2) show ?thesis by simp
qed

text \<open>
  C6, the counterexample. The template places a segment that uses the multi-segment
  converter \<^verbatim>\<open>path\<close> before its last segment, and the resource brings a coroutine responder
  to a router that is not in ASGI mode: \<^verbatim>\<open>add_route\<close> checks the responders before it looks
  at the template, and raises \<^verbatim>\<open>TypeError\<close>, not \<^verbatim>\<open>UnacceptableRouteError\<close>.
\<close>

theorem responder_check_precedes_template:
  "segment_uses_cmp demo_env (split_slash (lstrip_slash ''/{p:path}/c'') ! 0)
   \<and> Suc 0 < length (split_slash (lstrip_slash ''/{p:path}/c''))
   \<and> add_route demo_env [] ''/{p:path}/c'' 1
        [(''GET'', \<lparr>rid = 0, iscoroutinefunction = True, is_python_func = True\<rparr>)] False
      = (Some TypeError, [])"
  by code_simp

text \<open>
  C6, as amended. In a tree that calls of \<^verbatim>\<open>add_route\<close> lead to, when the responders of the
  resource pass the check for the mode of the router and the pattern of every segment of the
  template compiles, a template with a segment that uses a multi-segment converter before
  its last segment makes \<^verbatim>\<open>add_route\<close> raise \<^verbatim>\<open>UnacceptableRouteError\<close>: this covers the
  template that would extend the tree below a node whose segment uses such a converter,
  since that segment is then not the last one of the template. And in such a tree every
  node whose segment uses a multi-segment converter has no children.
\<close>

theorem multi_segment_converter_is_last:
  assumes "reachable E roots"
  shows "((if asgi then require_coroutine_responders E mm
           else require_non_coroutine_responders mm) = Inr mm'
          \<and> (\<forall>s \<in> set (split_slash (lstrip_slash template)). CompiledRouterNode E s \<noteq> Inl ReError)
          \<and> Suc i < length (split_slash (lstrip_slash template))
          \<and> segment_uses_cmp E (split_slash (lstrip_slash template) ! i)
          \<longrightarrow> fst (add_route E roots template res mm asgi) = Some UnacceptableRouteError)
         \<and> (\<forall>n \<in> set (all_nodes roots).
               segment_uses_cmp E (raw_segment (attrs n)) \<longrightarrow> children n = [])"
proof (intro conjI impI ballI)
  from assms have wf: "wf_roots E roots" by (rule reachable_wf)
  {
    fix n
    assume "n \<in> set (all_nodes roots)" "segment_uses_cmp E (raw_segment (attrs n))"
    with wf_node_cmp_leaf [OF wf_all_nodes [OF wf]] show "children n = []" by blast
  }
  let ?path = "split_slash (lstrip_slash template)"
  assume h: "(if asgi then require_coroutine_responders E mm
              else require_non_coroutine_responders mm) = Inr mm'
          \<and> (\<forall>s \<in> set ?path. CompiledRouterNode E s \<noteq> Inl ReError)
          \<and> Suc i < length ?path \<and> segment_uses_cmp E (?path ! i)"
  show "fst (add_route E roots template res mm asgi) = Some UnacceptableRouteError"
  proof (cases "list_ex is_space (field_sub (\<lambda>f. ''{FIELD}'') template)")
    case True
    with h show ?thesis by (simp add: add_route_def)
  next
    case False
    show ?thesis
    proof (cases "validate_path E ?path []")
      case (Inl e)
      from validate_path_error [OF Inl] Inl False h show ?thesis by (simp add: add_route_def)
    next
      case (Inr u)
      from h have a: "\<forall>s \<in> set ?path. CompiledRouterNode E s \<noteq> Inl ReError"
        and b: "Suc i < length ?path" and c: "segment_uses_cmp E (?path ! i)" by simp_all
      from insert_cmp_raises [OF validate_path_seg_valid [OF Inr] a wf b c, of "(mm', res, template)"]
        Inr False h show ?thesis by (simp add: add_route_def)
    qed
  qed
qed

theorem multi_segment_converter_is_last_witness:
  "reachable demo_env (snd (add_route demo_env [] ''/f/{p:path}'' 1 [] False))
   \<and> require_non_coroutine_responders [] = Inr []
   \<and> Inl ReError \<notin> set (map (CompiledRouterNode demo_env)
                            (split_slash (lstrip_slash ''/f/{p:path}/x'')))
   \<and> Suc 1 < length (split_slash (lstrip_slash ''/f/{p:path}/x''))
   \<and> segment_uses_cmp demo_env (split_slash (lstrip_slash ''/f/{p:path}/x'') ! 1)
   \<and> fst (add_route demo_env (snd (add_route demo_env [] ''/f/{p:path}'' 1 [] False))
            ''/f/{p:path}/x'' 2 [] False) = Some UnacceptableRouteError
   \<and> map (\<lambda>n. (raw_segment (attrs n), segment_uses_cmp demo_env (raw_segment (attrs n)),
               children n = []))
        (all_nodes (snd (add_route demo_env [] ''/f/{p:path}'' 1 [] False)))
      = [(''f'', False, False), (''{p:path}'', True, True)]"
proof -
  let ?R = "snd (add_route demo_env [] ''/f/{p:path}'' 1 [] False)"
  let ?path = "split_slash (lstrip_slash ''/f/{p:path}/x'')"
  have r: "reachable demo_env ?R"
    by (rule reachable.add [OF reachable.empty surjective_pairing])
  have a: "require_non_coroutine_responders [] = Inr []"
    by (simp add: require_non_coroutine_responders_def)
  have b: "Inl ReError \<notin> set (map (CompiledRouterNode demo_env) ?path)" by code_simp
  have c: "Suc 1 < length ?path" by code_simp
  have d: "segment_uses_cmp demo_env (?path ! 1)" by code_simp
  from b have b': "\<forall>s \<in> set ?path. CompiledRouterNode demo_env s \<noteq> Inl ReError" by force
  from multi_segment_converter_is_last [OF r, of False "[]" "[]" "''/f/{p:path}/x''" 1 2] a b' c d
  have e: "fst (add_route demo_env ?R ''/f/{p:path}/x'' 2 [] False) = Some UnacceptableRouteError"
    and f: "\<forall>n \<in> set (all_nodes ?R). segment_uses_cmp demo_env (raw_segment (attrs n))
              \<longrightarrow> children n = []"
    by simp_all
  have g: "map (\<lambda>n. (raw_segment (attrs n), segment_uses_cmp demo_env (raw_segment (attrs n)),
               children n = [])) (all_nodes ?R)
      = [(''f'', False, False), (''{p:path}'', True, True)]" by code_simp
  from r a b c d e g show ?thesis by blast
qed

section \<open>Registering a template again\<close>

lemma skeleton_of_eq: "skeleton_of n = Skeleton (attrs n) (map skeleton_of (children n))"
  by (cases n) simp

lemma skeleton_bind [simp]: "skeleton_of (bind_node b n) = skeleton_of n"
  by (cases b) (simp add: bind_node_def skeleton_of_eq [of n])

lemma skeleton_set_children [simp]:
  "skeleton_of (set_children n ch) = Skeleton (attrs n) (map skeleton_of ch)"
  by (simp add: set_children_def)

lemma bind_bind [simp]: "bind_node b2 (bind_node b1 n) = bind_node b2 n"
  by (cases b1; cases b2) (simp add: bind_node_def)

lemma set_children_twice [simp]: "set_children (set_children n ch1) ch2 = set_children n ch2"
  by (simp add: set_children_def)

lemma matches_bind [simp]: "matches (bind_node b n) s = matches n s"
  by (simp add: matches_def)

lemma matches_set_children [simp]: "matches (set_children n ch) s = matches n s"
  by (simp add: matches_def)

lemma binding_of_bind [simp]: "binding_of (bind_node (mm, res, t) n) = (Some mm, Some res, Some t)"
  by (simp add: binding_of_def bind_node_def)














end
